theory Spec2Isabelle
  imports Complex_Main "HOL-Library.Word"
begin

unbundle bit_operations_syntax

section \<open>Machine integers of \<open>dda_maths.c\<close>\<close>

text \<open>
  The file computes on \<open>uint8_t\<close>, \<open>uint16_t\<close>, \<open>uint32_t\<close>, \<open>int32_t\<close> and
  \<open>int64_t\<close>. Each is a word of that width: \<open>+\<close>, \<open>-\<close> and \<open>*\<close> wrap around,
  \<open>unat\<close> reads a word as unsigned and \<open>sint\<close> as two's complement, \<open>x << n\<close> is
  \<open>push_bit n x\<close>, the unsigned \<open>x >> n\<close> is \<open>drop_bit n x\<close>, the signed \<open>x >> n\<close>
  is \<open>signed_drop_bit n x\<close> (an arithmetic shift, as GCC compiles it), and a conversion
  between unsigned widths is \<open>ucast\<close>.

  ISO C leaves signed overflow undefined. The targets of this firmware are two's
  complement machines, so the model lets signed arithmetic wrap around as the unsigned
  one does; the places where that matters are named where they occur.
\<close>

type_synonym u8 = "8 word"
type_synonym u16 = "16 word"
type_synonym u32 = "32 word"
type_synonym i32 = "32 word"
type_synonym i64 = "64 word"

section \<open>\<open>muldivQR\<close>: multiply and divide without a wide product\<close>

text \<open>
  \<^verbatim>\<open>
  const int32_t muldivQR(int32_t multiplicand, uint32_t qn, uint32_t rn,
                         uint32_t divisor) {
    uint32_t quotient = 0;
    uint32_t remainder = 0;
    uint8_t negative_flag = 0;

    if (multiplicand < 0) {
      negative_flag = 1;
      multiplicand = -multiplicand;
    }

    while(multiplicand) {
      if (multiplicand & 1) {
        quotient += qn;
        remainder += rn;
        if (remainder >= divisor) {
          quotient++;
          remainder -= divisor;
        }
      }
      multiplicand  >>= 1;
      qn <<= 1;
      rn <<= 1;
      if (rn >= divisor) {
        qn++;
        rn -= divisor;
      }
    }

    // rounding
    if (remainder > divisor / 2)
      quotient++;

    // remainder is valid here, but not returned
    return negative_flag ? -((int32_t)quotient) : (int32_t)quotient;
  }
  \<close>
  The five variables the loop reads and writes are the state; \<open>divisor\<close> never changes.
\<close>

record muldiv_state =
  multiplicand :: i32
  qn :: u32
  rn :: u32
  quotient :: u32
  remainder :: u32

text \<open>One pass through the body of the \<open>while\<close> loop.\<close>

definition muldivQR_step :: "u32 \<Rightarrow> muldiv_state \<Rightarrow> muldiv_state" where
  "muldivQR_step divisor s =
     (let s = (if multiplicand s AND 1 \<noteq> 0 then
                 let q = quotient s + qn s; r = remainder s + rn s
                 in if divisor \<le> r then s\<lparr>quotient := q + 1, remainder := r - divisor\<rparr>
                    else s\<lparr>quotient := q, remainder := r\<rparr>
               else s);
          m = signed_drop_bit 1 (multiplicand s);
          q2 = push_bit 1 (qn s);
          r2 = push_bit 1 (rn s)
      in if divisor \<le> r2 then s\<lparr>multiplicand := m, qn := q2 + 1, rn := r2 - divisor\<rparr>
         else s\<lparr>multiplicand := m, qn := q2, rn := r2\<rparr>)"

text \<open>
  The loop runs while \<open>multiplicand\<close> is not zero. Nothing in its text bounds the number
  of passes, so it is a partial function: \<open>None\<close> means that the loop never exits.
\<close>

partial_function (option) muldivQR_loop :: "u32 \<Rightarrow> muldiv_state \<Rightarrow> muldiv_state option" where
  "muldivQR_loop divisor s =
     (if multiplicand s = 0 then Some s else muldivQR_loop divisor (muldivQR_step divisor s))"

text \<open>
  The whole function. \<open>-multiplicand\<close> and \<open>-((int32_t)quotient)\<close> are two's complement
  negations: at \<open>INT32_MIN\<close>, where ISO C gives them no meaning, they return their
  argument.
\<close>

definition muldivQR :: "i32 \<Rightarrow> u32 \<Rightarrow> u32 \<Rightarrow> u32 \<Rightarrow> i32 option" where
  "muldivQR m qn0 rn0 divisor =
     (let negative_flag = (m <s 0);
          m = (if negative_flag then - m else m)
      in case muldivQR_loop divisor
                \<lparr>multiplicand = m, qn = qn0, rn = rn0, quotient = 0, remainder = 0\<rparr> of
           None \<Rightarrow> None
         | Some s \<Rightarrow>
             let q = (if divisor div 2 < remainder s then quotient s + 1 else quotient s)
             in Some (if negative_flag then - q else q))"

text \<open>
  What the loop computes, read in unbounded arithmetic: the part of the product already
  divided, plus the part still to come.
\<close>

definition muldiv_total :: "u32 \<Rightarrow> muldiv_state \<Rightarrow> nat" where
  "muldiv_total d s =
     unat (quotient s) * unat d + unat (remainder s)
       + unat (multiplicand s) * (unat (qn s) * unat d + unat (rn s))"

text \<open>
  The quotient of two naturals rounded to the nearest integer, a tie going down: the
  rounding of the last statements of \<open>muldivQR\<close>, in unbounded arithmetic.
\<close>

definition round_quot :: "nat \<Rightarrow> nat \<Rightarrow> nat" where
  "round_quot p d = p div d + (if d div 2 < p mod d then 1 else 0)"

section \<open>\<open>approx_distance\<close> and \<open>approx_distance_3\<close>\<close>

text \<open>
  \<^verbatim>\<open>
  uint32_t approx_distance(uint32_t dx, uint32_t dy) {
    uint32_t min, max, approx;
    if (dx == 0 || dy == 0) return dx + dy;
    if ( dx < dy ) { min = dx; max = dy; } else { min = dy; max = dx; }
    approx = ( max * 1007 ) + ( min * 441 );
    if ( max < ( min << 4 )) approx -= ( max * 40 );
    return (( approx + 512 ) >> 10 );
  }
  \<close>
\<close>

definition approx_distance :: "u32 \<Rightarrow> u32 \<Rightarrow> u32" where
  "approx_distance dx dy =
     (if dx = 0 \<or> dy = 0 then dx + dy
      else
        let (mn, mx) = (if dx < dy then (dx, dy) else (dy, dx));
            approx = mx * 1007 + mn * 441;
            approx = (if mx < push_bit 4 mn then approx - mx * 40 else approx)
        in drop_bit 10 (approx + 512))"

text \<open>
  \<^verbatim>\<open>
  uint32_t approx_distance_3(uint32_t dx, uint32_t dy, uint32_t dz) {
    uint32_t min, med, max, approx;
    if ( dx < dy ) { min = dy; med = dx; } else { min = dx; med = dy; }
    if ( dz < min ) { max = med; med = min; min = dz; }
    else if ( dz < med ) { max = med; med = dz; }
    else { max = dz; }
    approx = ( max * 860 ) + ( med * 851 ) + ( min * 520 );
    if ( max < ( med << 1 )) approx -= ( max * 294 );
    if ( max < ( min << 2 )) approx -= ( max * 113 );
    if ( med < ( min << 2 )) approx -= ( med *  40 );
    return (( approx + 512 ) >> 10 );
  }
  \<close>
  The first \<open>if\<close> stores the larger of \<open>dx\<close> and \<open>dy\<close> in \<open>min\<close> and the smaller in
  \<open>med\<close>; the model keeps the assignments as they are written.
\<close>

definition approx_distance_3 :: "u32 \<Rightarrow> u32 \<Rightarrow> u32 \<Rightarrow> u32" where
  "approx_distance_3 dx dy dz =
     (let (mn, med) = (if dx < dy then (dy, dx) else (dx, dy));
          (mn, med, mx) =
            (if dz < mn then (dz, mn, med)
             else if dz < med then (mn, dz, med)
             else (mn, med, dz));
          approx = mx * 860 + med * 851 + mn * 520;
          approx = (if mx < push_bit 1 med then approx - mx * 294 else approx);
          approx = (if mx < push_bit 2 mn then approx - mx * 113 else approx);
          approx = (if med < push_bit 2 mn then approx - med * 40 else approx)
      in drop_bit 10 (approx + 512))"

section \<open>\<open>int_sqrt\<close> and \<open>int_inv_sqrt\<close>\<close>

text \<open>
  The five \<open>for\<close> loops of the two functions have one shape,
  \<^verbatim>\<open>
  for (j = top; j; j >>= 1) {
    x |= j;
    y = x * x;
    if (y > target)
      x ^= j;
  }
  \<close>
  and differ in the width of \<open>x\<close> and \<open>j\<close>, in the width the square is computed in
  and in the target. \<open>bit_loop\<close> is that loop, with the test \<open>y > target\<close> as its first
  argument; each loop of the source is one call of it, its test written out in full.
\<close>

function bit_loop :: "('a::len word \<Rightarrow> bool) \<Rightarrow> 'a word \<Rightarrow> 'a word \<Rightarrow> 'a word" where
  "bit_loop too_big j x =
     (if j = 0 then x
      else
        let x = x OR j;
            x = (if too_big x then x XOR j else x)
        in bit_loop too_big (drop_bit 1 j) x)"
  by pat_completeness auto
termination
proof (relation "measure (\<lambda>(too_big, j, x). unat j)", goal_cases)
  case 1
  show ?case by simp
next
  case (2 too_big j x x1 x2)
  have "unat (drop_bit 1 j) = drop_bit 1 (unat j)" by (rule unat_drop_bit_eq)
  then have "unat (drop_bit 1 j) = unat j div 2" by (simp add: drop_bit_eq_div)
  moreover have "0 < unat j" using 2(1) by (simp add: unat_gt_0)
  ultimately have "unat (drop_bit 1 j) < unat j" by simp
  then show ?case by simp
qed

declare bit_loop.simps [simp del]

text \<open>
  \<^verbatim>\<open>
  uint16_t int_sqrt(uint32_t a) {
    uint16_t b = a >> 16;
    uint8_t c = b >> 8;
    uint16_t x = 0;
    uint8_t z = 0;
    uint16_t i;
    uint8_t j;

    for (j = 0x8; j; j >>= 1) {
      uint8_t y2;
      z |= j;
      y2 = z * z;
      if (y2 > c)
        z ^= j;
    }

    x = z << 4;
    for(i = 0x8; i; i >>= 1) {
      uint16_t y2;
      x |= i;
      y2 = x * x;
      if (y2 > b)
        x ^= i;
    }

    x <<= 8;
    for(i = 0x80; i; i >>= 1) {
      uint32_t y2;
      x |= i;
      y2 = (uint32_t)x * x;
      if (y2 > a)
        x ^= i;
    }
    return x;
  }
  \<close>
  The first square is cut to 8 bits and the second to 16 bits by the type of \<open>y2\<close>; the
  third is a 32-bit product.
\<close>

definition int_sqrt :: "u32 \<Rightarrow> u16" where
  "int_sqrt a =
     (let b = (ucast (drop_bit 16 a) :: u16);
          c = (ucast (drop_bit 8 b) :: u8);
          z = bit_loop (\<lambda>z. c < z * z) 0x8 0;
          x = push_bit 4 (ucast z :: u16);
          x = bit_loop (\<lambda>x. b < x * x) 0x8 x;
          x = push_bit 8 x;
          x = bit_loop (\<lambda>x. a < ucast x * ucast x) 0x80 x
      in x)"

text \<open>
  \<^verbatim>\<open>
  uint16_t int_inv_sqrt(uint16_t a) {
    uint8_t z = 0, i;
    uint16_t x, j;
    uint32_t q = ((uint32_t)(0xFFFFU / a)) << 8;

    for (i = 0x80; i; i >>= 1) {
      uint16_t y;
      z |= i;
      y = (uint16_t)z * z;
      if (y > (q >> 8))
        z ^= i;
    }

    x = z << 4;
    for (j = 0x8; j; j >>= 1) {
      uint32_t y;
      x |= j;
      y = (uint32_t)x * x;
      if (y > q)
        x ^= j;
    }
    return x;
  }
  \<close>
  The division by \<open>a = 0\<close> has no result in C; the model returns \<open>None\<close> there.
\<close>

definition int_inv_sqrt :: "u16 \<Rightarrow> u16 option" where
  "int_inv_sqrt a =
     (if a = 0 then None
      else
        let q = push_bit 8 (ucast (0xFFFF div a) :: u32);
            z = bit_loop (\<lambda>z::u8. drop_bit 8 q < ucast ((ucast z :: u16) * ucast z)) 0x80 0;
            x = push_bit 4 (ucast z :: u16);
            x = bit_loop (\<lambda>x. q < ucast x * ucast x) 0x8 x
        in Some x)"

section \<open>\<open>acc_ramp_len\<close> and \<open>int_sqr\<close>\<close>

text \<open>
  \<^verbatim>\<open>
  uint32_t acc_ramp_len(uint32_t feedrate, uint32_t steps_per_m) {
    return (feedrate * feedrate) /
           (((uint32_t)7200000UL * ACCELERATION) / steps_per_m);
  }
  \<close>
  \<open>ACCELERATION\<close> is a macro of the build configuration, which is not part of this file:
  it is the first argument of the model, an unsigned 32-bit value. Both divisions have
  no result when their divisor is zero; the model returns \<open>None\<close> there.
\<close>

definition acc_ramp_len :: "u32 \<Rightarrow> u32 \<Rightarrow> u32 \<Rightarrow> u32 option" where
  "acc_ramp_len acceleration feedrate steps_per_m =
     (if steps_per_m = 0 then None
      else
        let d = (7200000 * acceleration) div steps_per_m
        in if d = 0 then None else Some ((feedrate * feedrate) div d))"

text \<open>
  \<^verbatim>\<open>
  int64_t int_sqr(int32_t a) {
    return a * a;
  }
  \<close>
  Both operands of the product have type \<open>int32_t\<close>, so the product is a 32-bit one,
  and only its result is converted to \<open>int64_t\<close>, by sign extension.
\<close>

definition int_sqr :: "i32 \<Rightarrow> i64" where
  "int_sqr a = scast (a * a)"

section \<open>Properties of \<open>approx_distance\<close>\<close>

text \<open>
  C9: when at least one of the two inputs is zero, \<open>approx_distance\<close> returns exactly
  \<open>dx + dy\<close>, the non-zero component; in particular \<open>approx_distance(0, 7) = 7\<close>.
\<close>

theorem approx_distance_zero_axis:
  "(dx = 0 \<or> dy = 0 \<longrightarrow> approx_distance dx dy = dx + dy) \<and> approx_distance 0 7 = 7"
  by (simp add: approx_distance_def)

theorem approx_distance_zero_axis_witness:
  "((0::u32) = 0 \<or> (7::u32) = 0) \<and> approx_distance 0 7 = 0 + 7"
  using approx_distance_zero_axis [of 0 7] by simp

text \<open>
  C10: \<open>approx_distance\<close> is commutative: exchanging the two inputs does not change the
  result.
\<close>

theorem approx_distance_commute:
  "approx_distance dx dy = approx_distance dy dx"
proof (cases "dx = dy")
  case True
  then show ?thesis by simp
next
  case False
  then have "dx < dy \<or> dy < dx" by auto
  then show ?thesis
    by (auto simp: approx_distance_def add.commute)
qed

section \<open>\<open>approx_distance_3\<close> and the order of its arguments\<close>

text \<open>
  C6 says that \<open>approx_distance_3\<close> gives the same result for every order of its three
  arguments. The ranking of the source does not sort: its first \<open>if\<close> puts the larger of
  \<open>dx\<close> and \<open>dy\<close> into \<open>min\<close>, so that for \<open>(100, 200, 0)\<close> the coefficients of
  \<open>max\<close>, \<open>med\<close> and \<open>min\<close> meet \<open>100\<close>, \<open>200\<close> and \<open>0\<close>, and for \<open>(0, 100, 200)\<close>
  they meet \<open>200\<close>, \<open>0\<close> and \<open>100\<close>. The two results differ.
\<close>

theorem approx_distance_3_order_matters:
  "approx_distance_3 100 200 0 = 221 \<and> approx_distance_3 0 100 200 = 197"
  by (simp add: approx_distance_3_def)

section \<open>\<open>int_sqr\<close> and the width of its product\<close>

text \<open>
  C5 says that \<open>int_sqr a\<close> is the exact square of \<open>a\<close> as a 64-bit value. The product is
  formed in 32 bits and widened afterwards: at \<open>a = 200000\<close>, the example of the comment
  above \<open>getPhiTheta\<close>, the exact square is \<open>40000000000\<close> and the function returns
  \<open>1345294336\<close>.
\<close>

theorem int_sqr_200000_wraps:
  "sint (int_sqr 200000) = 1345294336
   \<and> sint (200000 :: i32) * sint (200000 :: i32) = 40000000000"
  by (simp add: int_sqr_def)

section \<open>\<open>acc_ramp_len\<close> and the feedrate\<close>

text \<open>
  C7 as stated, for all 32-bit feedrates, fails where the square of the feedrate leaves
  32 bits: with an acceleration of \<open>100\<close> and \<open>80000\<close> steps per metre, the feedrate
  \<open>65535\<close> gives \<open>477204\<close> and the larger feedrate \<open>65536\<close> gives \<open>0\<close>.
\<close>

theorem acc_ramp_len_wraps_at_65536:
  "acc_ramp_len 100 65535 80000 = Some 477204 \<and> acc_ramp_len 100 65536 80000 = Some 0
   \<and> (65535::u32) \<le> 65536 \<and> \<not> (477204::u32) \<le> 0"
  by (simp add: acc_ramp_len_def)

text \<open>
  C7, amended: for feedrates \<open>f1 \<le> f2 \<le> 65535\<close>, whose squares fit in 32 bits, and a
  configuration in which neither divisor is zero, \<open>acc_ramp_len\<close> returns a result for
  both and the result for \<open>f1\<close> is at most the result for \<open>f2\<close>.
\<close>

theorem acc_ramp_len_mono:
  assumes "f1 \<le> f2" and "f2 \<le> 65535"
    and "steps_per_m \<noteq> 0" and "(7200000 * acceleration) div steps_per_m \<noteq> 0"
  shows "\<exists>r1 r2. acc_ramp_len acceleration f1 steps_per_m = Some r1
           \<and> acc_ramp_len acceleration f2 steps_per_m = Some r2 \<and> r1 \<le> r2"
proof -
  define d where "d = (7200000 * acceleration) div steps_per_m"
  have u2: "unat f2 \<le> 65535" using assms(2) by (simp add: word_le_nat_alt)
  have u1: "unat f1 \<le> unat f2" using assms(1) by (simp add: word_le_nat_alt)
  have sq: "unat (f * f) = unat f * unat f" if "unat f \<le> 65535" for f :: u32
  proof -
    have "unat f * unat f \<le> 65535 * 65535" using that by (intro mult_le_mono) simp_all
    then have "unat f * unat f < 2 ^ LENGTH(32)" by simp
    then show ?thesis by (simp only: unat_mult_lem [THEN iffD1])
  qed
  have "unat (f1 * f1) \<le> unat (f2 * f2)"
    using u1 u2 by (simp add: sq mult_le_mono)
  then have "unat ((f1 * f1) div d) \<le> unat ((f2 * f2) div d)"
    by (simp add: unat_div div_le_mono)
  then have "(f1 * f1) div d \<le> (f2 * f2) div d" by (simp add: word_le_nat_alt)
  then show ?thesis using assms(3,4) by (simp add: acc_ramp_len_def Let_def d_def)
qed

theorem acc_ramp_len_mono_witness:
  "(100::u32) \<le> 200 \<and> (200::u32) \<le> 65535 \<and> (80000::u32) \<noteq> 0
   \<and> (7200000 * 100) div (80000::u32) \<noteq> 0
   \<and> acc_ramp_len 100 100 80000 = Some 1 \<and> acc_ramp_len 100 200 80000 = Some 4
   \<and> (1::u32) \<le> 4"
  using acc_ramp_len_mono [of 100 200 80000 100]
  by (simp add: acc_ramp_len_def)

section \<open>\<open>muldivQR\<close>: the loop never leaves a remainder above the divisor\<close>

text \<open>Sums of two residues below the divisor, reduced once, are below the divisor, also
  when the 32-bit sum wraps around.\<close>

lemma normalize_bound:
  fixes r rn d :: u32
  assumes "r < d" "rn < d"
  shows "(if d \<le> r + rn then r + rn - d else r + rn) < d"
proof (cases "d \<le> r + rn")
  case False then show ?thesis by simp
next
  case True
  have lt: "unat r < unat d" "unat rn < unat d" using assms by (simp_all add: word_less_nat_alt)
  have d32: "unat d < 2 ^ 32" using unsigned_less [of d] by simp
  have nowrap: "unat r + unat rn < 2 ^ 32"
  proof (rule ccontr)
    assume "\<not> unat r + unat rn < 2 ^ 32"
    then have "unat (r + rn) = unat r + unat rn - 2 ^ 32"
      using lt d32 by (simp add: unat_word_ariths mod_if)
    then have "unat (r + rn) < unat d" using lt d32 by simp
    with True show False by (simp add: word_le_nat_alt)
  qed
  then have "unat (r + rn) = unat r + unat rn" by (simp add: unat_add_lem [THEN iffD1])
  then have "unat (r + rn - d) = unat r + unat rn - unat d" using True by (simp add: unat_sub)
  then show ?thesis using True lt by (simp add: word_less_nat_alt)
qed

lemma push_bit_1_double: "push_bit 1 (x::u32) = x + x"
  by (simp add: push_bit_eq_mult mult_2_right)

lemma double_bound:
  fixes rn d :: u32
  assumes "rn < d"
  shows "(if d \<le> push_bit 1 rn then push_bit 1 rn - d else push_bit 1 rn) < d"
  unfolding push_bit_1_double using assms assms by (rule normalize_bound)

text \<open>What one pass of the loop body does to each variable.\<close>

lemma muldivQR_step_multiplicand:
  "multiplicand (muldivQR_step d s) = signed_drop_bit 1 (multiplicand s)"
  by (simp add: muldivQR_step_def Let_def)

lemma muldivQR_step_rn:
  "rn (muldivQR_step d s) =
     (if d \<le> push_bit 1 (rn s) then push_bit 1 (rn s) - d else push_bit 1 (rn s))"
  by (simp add: muldivQR_step_def Let_def)

lemma muldivQR_step_qn:
  "qn (muldivQR_step d s) =
     (if d \<le> push_bit 1 (rn s) then push_bit 1 (qn s) + 1 else push_bit 1 (qn s))"
  by (simp add: muldivQR_step_def Let_def)

lemma muldivQR_step_remainder:
  "remainder (muldivQR_step d s) =
     (if multiplicand s AND 1 \<noteq> 0
      then if d \<le> remainder s + rn s then remainder s + rn s - d else remainder s + rn s
      else remainder s)"
  by (simp add: muldivQR_step_def Let_def)

lemma muldivQR_step_quotient:
  "quotient (muldivQR_step d s) =
     (if multiplicand s AND 1 \<noteq> 0
      then if d \<le> remainder s + rn s then quotient s + qn s + 1 else quotient s + qn s
      else quotient s)"
  by (simp add: muldivQR_step_def Let_def)

lemma muldivQR_step_bounds:
  assumes "rn s < d" "remainder s < d"
  shows "rn (muldivQR_step d s) < d" and "remainder (muldivQR_step d s) < d"
proof -
  show "rn (muldivQR_step d s) < d"
    unfolding muldivQR_step_rn using assms(1) by (rule double_bound)
  show "remainder (muldivQR_step d s) < d"
  proof (cases "multiplicand s AND 1 \<noteq> 0")
    case True
    have "(if d \<le> remainder s + rn s then remainder s + rn s - d else remainder s + rn s) < d"
      using assms(2) assms(1) by (rule normalize_bound)
    with True show ?thesis unfolding muldivQR_step_remainder by simp
  next
    case False
    with assms(2) show ?thesis unfolding muldivQR_step_remainder by simp
  qed
qed

lemma muldivQR_funpow_bounds:
  assumes "rn s < d" "remainder s < d"
  shows "rn ((muldivQR_step d ^^ n) s) < d \<and> remainder ((muldivQR_step d ^^ n) s) < d"
proof (induction n)
  case 0
  show ?case using assms by simp
next
  case (Suc n)
  then show ?case by (simp add: muldivQR_step_bounds)
qed

lemma muldivQR_loop_exit_bounds:
  assumes "muldivQR_loop d s = Some s'"
  shows "rn s < d \<and> remainder s < d \<longrightarrow> rn s' < d \<and> remainder s' < d"
proof (rule muldivQR_loop.raw_induct
    [where P = "\<lambda>d s s'. rn s < d \<and> remainder s < d \<longrightarrow> rn s' < d \<and> remainder s' < d", OF _ assms])
  fix f :: "u32 \<Rightarrow> muldiv_state \<Rightarrow> muldiv_state option" and d s s'
  assume IH: "\<And>d s s'. f d s = Some s' \<Longrightarrow>
      rn s < d \<and> remainder s < d \<longrightarrow> rn s' < d \<and> remainder s' < d"
    and body: "(if multiplicand s = 0 then Some s else f d (muldivQR_step d s)) = Some s'"
  show "rn s < d \<and> remainder s < d \<longrightarrow> rn s' < d \<and> remainder s' < d"
  proof (cases "multiplicand s = 0")
    case True
    with body show ?thesis by simp
  next
    case False
    with body have "f d (muldivQR_step d s) = Some s'" by simp
    then have "rn (muldivQR_step d s) < d \<and> remainder (muldivQR_step d s) < d
        \<longrightarrow> rn s' < d \<and> remainder s' < d" by (rule IH)
    then show ?thesis by (simp add: muldivQR_step_bounds)
  qed
qed

text \<open>
  C8: in \<open>muldivQR\<close>, when \<open>rn < divisor\<close> holds at the start (so that the divisor is
  not zero), \<open>remainder < divisor\<close> holds after every pass of the loop body, however
  many passes are made, and in the state the loop exits with. The loop is the step
  function \<open>muldivQR_step\<close> on the state (multiplicand, qn, rn, quotient, remainder),
  started as \<open>muldivQR\<close> starts it, with \<open>quotient = 0\<close> and \<open>remainder = 0\<close>. No
  hypothesis on overflow is needed: a sum that wraps around is below the divisor too.
\<close>

theorem muldivQR_remainder_invariant:
  assumes "rn0 < divisor"
  shows "(\<forall>n. remainder ((muldivQR_step divisor ^^ n)
              \<lparr>multiplicand = m, qn = qn0, rn = rn0, quotient = 0, remainder = 0\<rparr>) < divisor)
       \<and> (\<forall>s'. muldivQR_loop divisor
              \<lparr>multiplicand = m, qn = qn0, rn = rn0, quotient = 0, remainder = 0\<rparr> = Some s'
            \<longrightarrow> remainder s' < divisor)"
proof -
  let ?s = "\<lparr>multiplicand = m, qn = qn0, rn = rn0, quotient = 0, remainder = 0\<rparr>"
  have r: "rn ?s < divisor" using assms by simp
  have "0 < divisor" using assms by (simp add: word_greater_zero_iff) (metis word_not_simps(1))
  then have q: "remainder ?s < divisor" by simp
  show ?thesis using muldivQR_funpow_bounds [OF r q] muldivQR_loop_exit_bounds [of divisor ?s] r q by blast
qed

theorem muldivQR_remainder_invariant_witness:
  "(1::u32) < 2
   \<and> remainder ((muldivQR_step 2 ^^ 1)
        \<lparr>multiplicand = 1, qn = 3, rn = 1, quotient = 0, remainder = 0\<rparr>) < 2
   \<and> muldivQR_loop 2 \<lparr>multiplicand = 1, qn = 3, rn = 1, quotient = 0, remainder = 0\<rparr>
       = Some \<lparr>multiplicand = 0, qn = 7, rn = 0, quotient = 3, remainder = 1\<rparr>
   \<and> remainder \<lparr>multiplicand = 0, qn = 7, rn = 0, quotient = 3, remainder = (1::u32)\<rparr> < 2"
  using muldivQR_remainder_invariant [of 1 2 1 3]
  by (simp add: muldivQR_loop.simps muldivQR_step_def Let_def word_le_nat_alt word_less_nat_alt)

section \<open>\<open>muldivQR\<close>: the multiplicand \<open>INT32_MIN\<close>\<close>

text \<open>The arithmetic shift keeps the sign, so a negative multiplicand never becomes zero.\<close>

lemma muldivQR_step_sign: "multiplicand (muldivQR_step d s) <s 0 \<longleftrightarrow> multiplicand s <s 0"
  by (simp add: muldivQR_step_def Let_def word_sless_alt sint_signed_drop_bit_eq)

lemma muldivQR_loop_Some_nonneg:
  assumes "muldivQR_loop d s = Some y"
  shows "\<not> multiplicand s <s 0"
proof (rule muldivQR_loop.raw_induct [where P = "\<lambda>d s y. \<not> multiplicand s <s 0", OF _ assms])
  fix f :: "u32 \<Rightarrow> muldiv_state \<Rightarrow> muldiv_state option" and d s y
  assume IH: "\<And>d s y. f d s = Some y \<Longrightarrow> \<not> multiplicand s <s 0"
    and body: "(if multiplicand s = 0 then Some s else f d (muldivQR_step d s)) = Some y"
  show "\<not> multiplicand s <s 0"
  proof (cases "multiplicand s = 0")
    case True then show ?thesis by simp
  next
    case False
    with body IH have "\<not> multiplicand (muldivQR_step d s) <s 0" by simp
    then show ?thesis by (simp add: muldivQR_step_sign)
  qed
qed

lemma muldivQR_int32_min:
  "muldivQR (- 2147483648) qn0 rn0 d = None"
proof -
  let ?s = "\<lparr>multiplicand = 2147483648, qn = qn0, rn = rn0, quotient = 0, remainder = 0\<rparr>"
  have "muldivQR_loop d ?s = None"
    using muldivQR_loop_Some_nonneg [of d ?s]
    by (cases "muldivQR_loop d ?s") (simp_all add: word_sless_alt)
  then show ?thesis by (simp add: muldivQR_def word_sless_alt)
qed

text \<open>
  C1 says that \<open>muldivQR\<close> returns the rounded quotient for every signed 32-bit
  multiplicand whose product, multiplier, divisor and quotient fit in 32 bits. At the
  multiplicand \<open>INT32_MIN = -2147483648\<close> with multiplier \<open>1\<close> and divisor \<open>1\<close>
  (\<open>qn = 1\<close>, \<open>rn = 0\<close>), where the quotient is \<open>-2147483648\<close>, the negation
  \<open>-multiplicand\<close> overflows and leaves the multiplicand negative, and the loop, which
  shifts it right with its sign, never sees it reach zero: the function does not return.
\<close>

theorem muldivQR_int32_min_does_not_return:
  "muldivQR (- 2147483648) 1 0 1 = None"
  by (rule muldivQR_int32_min)

section \<open>\<open>muldivQR\<close>: every other multiplicand\<close>

text \<open>
  For every multiplicand above \<open>INT32_MIN\<close> the function returns, and its result is the
  rounded quotient. The proof follows the loop: \<open>muldiv_total\<close> is the same before and
  after each pass, as long as it is below \<open>2 ^ 32\<close>.
\<close>

lemma nat_le_mult_pos: "0 < D \<Longrightarrow> n \<le> n * (D::nat)"
  by (cases D) simp_all

lemma accumulate_total:
  fixes q qn r rn d :: u32
  assumes "r < d" "rn < d"
    and tot: "unat q * unat d + unat r + (unat qn * unat d + unat rn) < 2 ^ 32"
  shows "unat (if d \<le> r + rn then q + qn + 1 else q + qn) * unat d
           + unat (if d \<le> r + rn then r + rn - d else r + rn)
         = unat q * unat d + unat r + (unat qn * unat d + unat rn)"
    and "(if d \<le> r + rn then r + rn - d else r + rn) < d"
proof -
  define D Q R QN RN where "D = unat d" "Q = unat q" "R = unat r" "QN = unat qn" "RN = unat rn"
  note defs = this
  have D: "0 < D" "R < D" "RN < D" using assms(1,2) by (auto simp: defs word_less_nat_alt)
  have tot': "Q * D + R + (QN * D + RN) < 2 ^ 32" using tot by (simp add: defs)
  have "Q + QN \<le> (Q + QN) * D" using D(1) by (rule nat_le_mult_pos)
  then have qq: "Q + QN + (R + RN) < 2 ^ 32" using tot' by (simp add: algebra_simps)
  have ur: "unat (r + rn) = R + RN"
    using qq by (simp add: defs unat_add_lem [THEN iffD1])
  have uq: "unat (q + qn) = Q + QN"
    using qq by (simp add: defs unat_add_lem [THEN iffD1])
  show "unat (if d \<le> r + rn then q + qn + 1 else q + qn) * unat d
           + unat (if d \<le> r + rn then r + rn - d else r + rn)
         = unat q * unat d + unat r + (unat qn * unat d + unat rn)"
  proof (cases "d \<le> r + rn")
    case True
    then have le: "D \<le> R + RN" by (simp add: word_le_nat_alt ur defs(1))
    have "(Q + QN + 1) * D \<le> Q * D + R + (QN * D + RN)" using le by (simp add: algebra_simps)
    moreover have "Q + QN + 1 \<le> (Q + QN + 1) * D" using D(1) by (rule nat_le_mult_pos)
    ultimately have "Q + QN + 1 < 2 ^ 32" using tot' by linarith
    then have "unat (q + qn + 1) = Q + QN + 1"
      using uq unat_add_lem [of "q + qn" 1] by simp
    moreover have "unat (r + rn - d) = R + RN - D"
      using True by (simp add: unat_sub ur defs(1))
    ultimately show ?thesis using True le by (simp add: algebra_simps flip: defs)
  next
    case False
    then show ?thesis by (simp add: ur uq algebra_simps flip: defs)
  qed
  show "(if d \<le> r + rn then r + rn - d else r + rn) < d"
  proof (cases "d \<le> r + rn")
    case True
    then have le: "D \<le> R + RN" by (simp add: word_le_nat_alt ur defs(1))
    have "unat (r + rn - d) = R + RN - D"
      using True by (simp add: unat_sub ur defs(1))
    then show ?thesis using True D by (simp add: word_less_nat_alt flip: defs)
  next
    case False then show ?thesis by simp
  qed
qed

lemma double_total:
  fixes qn rn d :: u32
  assumes "rn < d" "unat qn * unat d + unat rn + (unat qn * unat d + unat rn) < 2 ^ 32"
  shows "unat (if d \<le> push_bit 1 rn then push_bit 1 qn + 1 else push_bit 1 qn) * unat d
           + unat (if d \<le> push_bit 1 rn then push_bit 1 rn - d else push_bit 1 rn)
         = unat qn * unat d + unat rn + (unat qn * unat d + unat rn)"
  unfolding push_bit_1_double using assms(1) assms(1) assms(2) by (rule accumulate_total(1))

lemma signed_shift_nonneg: "\<not> m <s 0 \<Longrightarrow> unat (signed_drop_bit 1 (m::i32)) = unat m div 2"
proof -
  assume "\<not> m <s 0"
  then have nb: "\<not> bit m 31" using bit_last_iff[of m] by (simp add: word_sless_alt)
  have "signed_drop_bit 1 m = drop_bit 1 m"
    by (rule bit_word_eqI) (use nb in \<open>auto simp: bit_simps dest: bit_imp_le_length\<close>)
  then show ?thesis by (simp add: unat_drop_bit_eq drop_bit_eq_div unat_div)
qed

lemma low_bit_odd: "(m::i32) AND 1 \<noteq> 0 \<longleftrightarrow> odd (unat m)"
proof -
  have "unat (m AND 1) = unat m mod 2"
    by (simp add: and_one_eq unat_mod flip: even_iff_mod_2_eq_zero)
  then show ?thesis
    by (metis unat_eq_zero even_iff_mod_2_eq_zero)
qed

lemma split_bits: "(a + 2 * b) * X = a * X + b * (2 * (X::nat))"
  by (simp add: algebra_simps)

lemma muldivQR_step_total:
  assumes nonneg: "\<not> multiplicand s <s 0" and nz: "multiplicand s \<noteq> 0"
    and inv: "rn s < d" "remainder s < d"
    and tot: "muldiv_total d s < 2 ^ 32"
  shows "muldiv_total d (muldivQR_step d s) = muldiv_total d s"
    and "unat (multiplicand (muldivQR_step d s)) = unat (multiplicand s) div 2"
proof -
  define M D Q R QN RN where "M = unat (multiplicand s)" "D = unat d" "Q = unat (quotient s)"
     "R = unat (remainder s)" "QN = unat (qn s)" "RN = unat (rn s)"
  note defs = this
  define q1 where "q1 = quotient (muldivQR_step d s)"
  define r1 where "r1 = remainder (muldivQR_step d s)"
  define q2 where "q2 = qn (muldivQR_step d s)"
  define r2 where "r2 = rn (muldivQR_step d s)"
  have M2: "unat (multiplicand (muldivQR_step d s)) = M div 2"
    unfolding muldivQR_step_multiplicand defs using nonneg by (rule signed_shift_nonneg)
  then show "unat (multiplicand (muldivQR_step d s)) = unat (multiplicand s) div 2"
    by (simp add: defs)
  define X where "X = QN * D + RN"
  have Mpos: "0 < M" using nz by (simp add: defs unat_gt_0)
  have T: "Q * D + R + M * X < 2 ^ 32" using tot by (simp add: muldiv_total_def defs X_def)
  have acc: "unat q1 * D + unat r1 = Q * D + R + (M mod 2) * X"
  proof (cases "odd M")
    case True
    then have "M mod 2 = 1" by (simp add: odd_iff_mod_2_eq_one)
    moreover have "Q * D + R + X < 2 ^ 32"
    proof -
      have "X \<le> M * X" using Mpos by simp
      with T show ?thesis by linarith
    qed
    then have "unat (if d \<le> remainder s + rn s then quotient s + qn s + 1 else quotient s + qn s) * unat d
           + unat (if d \<le> remainder s + rn s then remainder s + rn s - d else remainder s + rn s)
         = Q * D + R + X"
      using accumulate_total(1) [of "remainder s" d "rn s" "quotient s" "qn s"] inv by (simp add: defs X_def)
    ultimately show ?thesis using True by (simp add: q1_def r1_def muldivQR_step_quotient muldivQR_step_remainder low_bit_odd defs)
  next
    case False
    then show ?thesis by (simp add: q1_def r1_def muldivQR_step_quotient muldivQR_step_remainder low_bit_odd defs)
  qed
  have dbl: "(M div 2) * (unat q2 * D + unat r2) = (M div 2) * (2 * X)"
  proof (cases "M div 2 = 0")
    case True then show ?thesis by simp
  next
    case False
    then have "2 \<le> M" by linarith
    then have "2 * X \<le> M * X" by (rule mult_le_mono1)
    with T have xx: "X + X < 2 ^ 32" by linarith
    have "unat q2 * D + unat r2 = X + X"
      using inv(1) xx unfolding q2_def r2_def muldivQR_step_qn muldivQR_step_rn defs X_def by (rule double_total)
    then show ?thesis by simp
  qed
  have "muldiv_total d (muldivQR_step d s) = unat q1 * D + unat r1 + (M div 2) * (unat q2 * D + unat r2)"
    by (simp add: muldiv_total_def M2 q1_def r1_def q2_def r2_def defs)
  also have "\<dots> = Q * D + R + (M mod 2) * X + (M div 2) * (2 * X)"
    by (simp only: acc dbl)
  also have "\<dots> = Q * D + R + M * X"
    using split_bits [of "M mod 2" "M div 2" X] by simp
  also have "\<dots> = muldiv_total d s"
    by (simp add: muldiv_total_def defs X_def)
  finally show "muldiv_total d (muldivQR_step d s) = muldiv_total d s" .
qed

lemma muldivQR_loop_total:
  assumes "\<not> multiplicand s <s 0" "rn s < d" "remainder s < d" "muldiv_total d s < 2 ^ 32"
  shows "\<exists>s'. muldivQR_loop d s = Some s' \<and> remainder s' < d
            \<and> unat (quotient s') * unat d + unat (remainder s') = muldiv_total d s"
  using assms
proof (induction "unat (multiplicand s)" arbitrary: s rule: less_induct)
  case less
  show ?case
  proof (cases "multiplicand s = 0")
    case True
    then show ?thesis using less.prems by (simp add: muldivQR_loop.simps muldiv_total_def)
  next
    case False
    let ?t = "muldivQR_step d s"
    have tot: "muldiv_total d ?t = muldiv_total d s"
      and half: "unat (multiplicand ?t) = unat (multiplicand s) div 2"
      using less.prems False by (simp_all add: muldivQR_step_total)
    have "0 < unat (multiplicand s)" using False by (simp add: unat_gt_0)
    then have "unat (multiplicand ?t) < unat (multiplicand s)" using half by simp
    moreover have "\<not> multiplicand ?t <s 0" using less.prems(1) by (simp add: muldivQR_step_sign)
    moreover have "rn ?t < d" "remainder ?t < d" using less.prems by (simp_all add: muldivQR_step_bounds)
    moreover have "muldiv_total d ?t < 2 ^ 32" using tot less.prems by simp
    ultimately have "\<exists>s'. muldivQR_loop d ?t = Some s' \<and> remainder s' < d
            \<and> unat (quotient s') * unat d + unat (remainder s') = muldiv_total d ?t"
      by (rule less.hyps)
    then show ?thesis using False tot by (subst muldivQR_loop.simps) simp
  qed
qed

text \<open>The sign: the absolute value of the multiplicand going in, the sign of the result
  coming out.\<close>

lemma sint_word_of_int_32:
  assumes "- (2 ^ 31) \<le> k" "k < 2 ^ 31"
  shows "sint (word_of_int k :: i32) = k"
  using assms by (simp add: sint_sbintrunc' signed_take_bit_int_eq_self)

lemma unat_of_nonneg:
  fixes w :: i32
  assumes "0 \<le> sint w"
  shows "int (unat w) = sint w"
proof -
  have "sint w < 2 ^ 32" using sint_lt [of w] by simp
  then have "take_bit 32 (sint w) = sint w" using assms by (simp add: take_bit_int_eq_self)
  then have "uint w = sint w" using uint_sint [of w] by simp
  then show ?thesis by simp
qed

lemma abs_multiplicand:
  fixes m :: i32
  assumes "sint m \<noteq> - (2 ^ 31)"
  defines "m' \<equiv> (if m <s 0 then - m else m)"
  shows "\<not> m' <s 0" and "unat m' = nat \<bar>sint m\<bar>"
proof -
  have range: "- (2 ^ 31) \<le> sint m" "sint m < 2 ^ 31"
    using sint_ge [of m] sint_lt [of m] by simp_all
  have sm: "sint m' = \<bar>sint m\<bar>"
  proof (cases "m <s 0")
    case True
    then have neg: "sint m < 0" by (simp add: word_sless_alt)
    have "sint (- m) = signed_take_bit 31 (- sint m)" using sint_word_minus [of m] by simp
    also have "\<dots> = - sint m"
      using assms(1) range by (intro signed_take_bit_int_eq_self) simp_all
    finally show ?thesis using True neg by (simp add: m'_def)
  next
    case False
    then show ?thesis by (simp add: m'_def word_sless_alt)
  qed
  then show "\<not> m' <s 0" by (simp add: word_sless_alt)
  have "0 \<le> sint m'" using sm by simp
  then have "int (unat m') = sint m'" by (rule unat_of_nonneg)
  then have "nat (int (unat m')) = nat \<bar>sint m\<bar>" by (simp only: sm)
  then show "unat m' = nat \<bar>sint m\<bar>" by (simp only: nat_int)
qed

lemma sint_result:
  fixes q :: u32
  assumes "if neg then unat q \<le> 2 ^ 31 else unat q < 2 ^ 31"
  shows "sint (if neg then - q else q) = (if neg then - int (unat q) else int (unat q))"
proof (cases neg)
  case True
  have "- q = word_of_int (- int (unat q))" by simp
  moreover have "sint (word_of_int (- int (unat q)) :: i32) = - int (unat q)"
  proof (rule sint_word_of_int_32)
    have "int (unat q) \<le> int (2 ^ 31)" using assms True by (simp only: if_True of_nat_le_iff)
    then show "- (2 ^ 31) \<le> - int (unat q)" by simp
    have "0 \<le> int (unat q)" by (rule of_nat_0_le_iff)
    moreover have "(0::int) < 2 ^ 31" by simp
    ultimately show "- int (unat q) < 2 ^ 31" by linarith
  qed
  ultimately show ?thesis using True by simp
next
  case False
  have "q = word_of_int (int (unat q))" by simp
  moreover have "sint (word_of_int (int (unat q)) :: i32) = int (unat q)"
  proof (rule sint_word_of_int_32)
    have "int (unat q) < int (2 ^ 31)" using assms False by (simp only: if_False of_nat_less_iff)
    then show "int (unat q) < 2 ^ 31" by simp
    have "0 \<le> int (unat q)" by (rule of_nat_0_le_iff)
    moreover have "(0::int) < 2 ^ 31" by simp
    ultimately show "- (2 ^ 31) \<le> int (unat q)" by linarith
  qed
  ultimately show ?thesis using False by simp
qed

lemma div_mod_unique:
  fixes q r d p :: nat
  assumes "q * d + r = p" "r < d"
  shows "q = p div d" and "r = p mod d"
proof -
  have "p div d = q" using assms by (metis div_mult_self3 div_less add.commute add_cancel_left_right less_nat_zero_code mult.commute div_mult_self4 not_gr_zero)
  then show "q = p div d" by simp
  have "p mod d = r" using assms by (metis mod_mult_self3 mod_less)
  then show "r = p mod d" by simp
qed

text \<open>
  With \<open>qn\<close> and \<open>rn\<close> the quotient and remainder of a multiplier by a non-zero divisor,
  a multiplicand other than \<open>INT32_MIN\<close>, a product below \<open>2 ^ 32\<close> in absolute value
  and a rounded quotient that fits in \<open>int32_t\<close>, \<open>muldivQR\<close> returns the rounded
  quotient with the sign of the multiplicand.
\<close>

lemma muldivQR_rounds:
  fixes m :: i32 and multiplier divisor :: u32
  defines "p \<equiv> nat \<bar>sint m\<bar> * unat multiplier"
  assumes min: "sint m \<noteq> - (2 ^ 31)"
    and dnz: "divisor \<noteq> 0"
    and prod: "p < 2 ^ 32"
    and fits: "if sint m < 0 then round_quot p (unat divisor) \<le> 2 ^ 31
               else round_quot p (unat divisor) < 2 ^ 31"
  shows "\<exists>r. muldivQR m (multiplier div divisor) (multiplier mod divisor) divisor = Some r
           \<and> sint r = (if sint m < 0 then - int (round_quot p (unat divisor))
                       else int (round_quot p (unat divisor)))"
proof -
  define m' where "m' = (if m <s 0 then - m else m)"
  define s0 where "s0 = \<lparr>multiplicand = m', qn = multiplier div divisor,
     rn = multiplier mod divisor, quotient = 0, remainder = 0\<rparr>"
  define D where "D = unat divisor"
  have Dpos: "0 < D" using dnz by (simp add: D_def unat_gt_0)
  have m': "\<not> m' <s 0" "unat m' = nat \<bar>sint m\<bar>"
    using abs_multiplicand [OF min] by (simp_all add: m'_def)
  have mult: "unat (multiplier div divisor) * D + unat (multiplier mod divisor) = unat multiplier"
    by (simp add: unat_div unat_mod D_def)
  have tot: "muldiv_total divisor s0 = p"
    using mult by (simp add: muldiv_total_def s0_def m'(2) p_def D_def)
  have rn0: "rn s0 < divisor"
    using Dpos by (simp add: s0_def word_less_nat_alt unat_mod D_def)
  have rem0: "remainder s0 < divisor" using dnz by (simp add: s0_def word_greater_zero_iff)
  have "\<exists>s'. muldivQR_loop divisor s0 = Some s' \<and> remainder s' < divisor
            \<and> unat (quotient s') * unat divisor + unat (remainder s') = muldiv_total divisor s0"
  proof (rule muldivQR_loop_total)
    show "\<not> multiplicand s0 <s 0" using m'(1) by (simp add: s0_def)
    show "rn s0 < divisor" by (rule rn0)
    show "remainder s0 < divisor" by (rule rem0)
    show "muldiv_total divisor s0 < 2 ^ 32" using prod tot by simp
  qed
  then obtain s' where loop: "muldivQR_loop divisor s0 = Some s'"
    and rlt: "unat (remainder s') < D"
    and sum: "unat (quotient s') * D + unat (remainder s') = p"
    by (auto simp: tot D_def word_less_nat_alt)
  have quo: "unat (quotient s') = p div D" and rem: "unat (remainder s') = p mod D"
    using div_mod_unique [OF sum rlt] by simp_all
  define q where "q = (if divisor div 2 < remainder s' then quotient s' + 1 else quotient s')"
  have half: "divisor div 2 < remainder s' \<longleftrightarrow> D div 2 < p mod D"
    by (simp add: word_less_nat_alt unat_div rem D_def)
  have uq: "unat q = round_quot p D"
  proof (cases "D div 2 < p mod D")
    case True
    have "2 \<le> D" using True rlt rem by linarith
    then have "p div D \<le> p div 2" by (intro div_le_mono2) simp_all
    then have "p div D + 1 < 2 ^ 32" using prod by simp
    then have "unat (quotient s' + 1) = p div D + 1"
      using unat_add_lem [of "quotient s'" 1] quo by simp
    then show ?thesis using True half by (simp add: q_def round_quot_def)
  next
    case False
    then show ?thesis using half quo by (simp add: q_def round_quot_def)
  qed
  have neg: "m <s 0 \<longleftrightarrow> sint m < 0" by (simp add: word_sless_alt)
  have res: "muldivQR m (multiplier div divisor) (multiplier mod divisor) divisor
               = Some (if m <s 0 then - q else q)"
    using loop by (simp add: muldivQR_def Let_def m'_def s0_def q_def)
  have "if m <s 0 then unat q \<le> 2 ^ 31 else unat q < 2 ^ 31"
    using fits by (cases "sint m < 0") (simp_all add: neg uq D_def)
  then have "sint (if m <s 0 then - q else q) = (if m <s 0 then - int (unat q) else int (unat q))"
    by (rule sint_result)
  then show ?thesis using res by (simp add: neg uq D_def)
qed

text \<open>An instance: \<open>-7 * 7 / 2 = -24.5\<close>, a tie, is rounded to \<open>-24\<close>.\<close>

lemma muldivQR_rounds_example:
  "\<exists>r. muldivQR (- 7) 3 1 2 = Some r \<and> sint r = - 24"
  using muldivQR_rounds [where m = "- 7" and multiplier = 7 and divisor = 2]
  by (simp add: round_quot_def)

text \<open>\<open>round_quot\<close> is a nearest integer to the exact quotient: it is off by at most a
  half.\<close>

lemma round_quot_nearest:
  assumes "0 < d"
  shows "2 * \<bar>int (round_quot p d) * int d - int p\<bar> \<le> int d"
proof -
  define r h where "r = p mod d" and "h = d div 2"
  have p: "int p = int (p div d) * int d + int r"
    unfolding r_def by (metis of_nat_add of_nat_mult div_mult_mod_eq)
  have lt: "r < d" using assms by (simp add: r_def)
  have d2: "d \<le> 2 * h + 1" "2 * h \<le> d" by (simp_all add: h_def)
  have rq: "round_quot p d = p div d + (if h < r then 1 else 0)"
    by (simp add: round_quot_def r_def h_def)
  show ?thesis
  proof (cases "h < r")
    case True
    then have "int (round_quot p d) * int d - int p = int d - int r"
      using p by (simp add: rq algebra_simps)
    moreover have "2 * (int d - int r) \<le> int d"
    proof -
      have "d \<le> 2 * r" using True d2 by linarith
      then have "int d \<le> int (2 * r)" by (rule of_nat_mono)
      then show ?thesis by simp
    qed
    moreover have "0 \<le> int d - int r" using lt by simp
    ultimately show ?thesis by simp
  next
    case False
    then have "int (round_quot p d) * int d - int p = - int r"
      using p by (simp add: rq)
    moreover have "2 * int r \<le> int d"
    proof -
      have "2 * r \<le> d" using False d2 by linarith
      then have "int (2 * r) \<le> int d" by (rule of_nat_mono)
      then show ?thesis by simp
    qed
    ultimately show ?thesis by simp
  qed
qed

text \<open>
  The bound on the product is needed. With the divisor \<open>2 ^ 32 - 1\<close> and the multiplier
  \<open>2 ^ 31 + 1\<close>, so that \<open>qn = 0\<close> and \<open>rn = 2 ^ 31 + 1\<close>, the doubling \<open>rn <<= 1\<close>
  leaves 32 bits, and for the multiplicand \<open>4\<close> the function returns \<open>0\<close> where the
  rounded quotient is \<open>2\<close>.
\<close>

lemma muldivQR_wide_product_example:
  "muldivQR 4 0 2147483649 4294967295 = Some 0
   \<and> round_quot (4 * 2147483649) 4294967295 = 2"
  by (simp add: muldivQR_def muldivQR_loop.simps muldivQR_step_def Let_def round_quot_def
      word_sless_alt word_le_nat_alt word_less_nat_alt)

section \<open>The bit loop finds the integer square root\<close>

text \<open>Setting and clearing one bit of a word whose lower bits are clear.\<close>

lemma unat_pow2:
  assumes "k < LENGTH('a::len)"
  shows "unat (2 ^ k :: 'a word) = 2 ^ k"
proof -
  have "unat (push_bit k (1::'a word)) = take_bit LENGTH('a) (push_bit k (unat (1::'a word)))"
    by (rule unsigned_push_bit_eq)
  then show ?thesis using assms by (simp add: push_bit_eq_mult take_bit_nat_eq_self)
qed

lemma unat_set_bit:
  fixes x :: "'a::len word"
  assumes low: "\<forall>i\<le>k. \<not> bit x i" and nov: "unat x + 2 ^ k < 2 ^ LENGTH('a)"
  shows "unat (x OR 2 ^ k) = unat x + 2 ^ k"
proof -
  have k: "k < LENGTH('a)" using nov
    by (metis add_lessD1 add.commute nat_power_less_imp_less pos2)
  have "x + 2 ^ k = x OR 2 ^ k"
    by (rule disjunctive_add) (use low in \<open>auto simp: bit_simps\<close>)
  moreover have "unat (2 ^ k :: 'a word) = 2 ^ k" using k by (rule unat_pow2)
  ultimately show ?thesis using nov unat_add_lem [of x "2 ^ k"] by simp
qed

lemma set_then_clear_bit:
  fixes x :: "'a::len word"
  assumes "\<not> bit x k"
  shows "(x OR 2 ^ k) XOR 2 ^ k = x"
  by (rule bit_word_eqI) (use assms in \<open>auto simp: bit_simps\<close>)

lemma set_bit_keeps_low_bits:
  fixes x :: "'a::len word"
  assumes "\<forall>i\<le>Suc k. \<not> bit x i"
  shows "\<forall>i\<le>k. \<not> bit (x OR 2 ^ Suc k) i"
  using assms by (auto simp: bit_simps)

lemma drop_bit_1_pow:
  assumes "Suc k < LENGTH('a::len)"
  shows "drop_bit 1 (2 ^ Suc k :: 'a word) = 2 ^ k"
  by (rule bit_word_eqI) (use assms in \<open>auto simp: bit_simps\<close>)

text \<open>One pass of the loop at the bit \<open>2 ^ k\<close>.\<close>

lemma bit_loop_step:
  fixes x :: "'a::len word"
  assumes "k < LENGTH('a)"
  shows "bit_loop too_big (2 ^ k) x =
     (let y = (if too_big (x OR 2 ^ k) then (x OR 2 ^ k) XOR 2 ^ k else x OR 2 ^ k)
      in case k of 0 \<Rightarrow> y | Suc k' \<Rightarrow> bit_loop too_big (2 ^ k') y)"
proof (cases k)
  case 0
  then show ?thesis by (simp add: bit_loop.simps [of _ 1] bit_loop.simps [of _ 0] Let_def)
next
  case (Suc k')
  then have "drop_bit 1 (2 ^ k :: 'a word) = 2 ^ k'" using assms by (simp only: drop_bit_1_pow)
  moreover have "(2 ^ k :: 'a word) \<noteq> 0" using assms by simp
  ultimately show ?thesis using Suc by (subst bit_loop.simps) (simp add: Let_def)
qed

text \<open>
  The invariant of the loop: the bits of \<open>x\<close> from \<open>k\<close> downwards are clear, and the
  target \<open>T\<close> lies between the square of \<open>x\<close> and the square of \<open>x + 2 ^ (k + 1)\<close>.
  \<open>B\<close> bounds the values whose square the test computes without overflow.
\<close>

lemma bit_loop_floor_sqrt:
  fixes x :: "'a::len word"
  assumes low: "\<forall>i\<le>k. \<not> bit x i"
    and bound: "unat x + 2 ^ Suc k \<le> B" "B \<le> 2 ^ LENGTH('a)"
    and test: "\<And>y::'a word. unat y < B \<Longrightarrow> too_big y \<longleftrightarrow> T < unat y * unat y"
    and lo: "unat x * unat x \<le> T"
    and hi: "T < (unat x + 2 ^ Suc k) * (unat x + 2 ^ Suc k)"
  shows "unat (bit_loop too_big (2 ^ k) x) * unat (bit_loop too_big (2 ^ k) x) \<le> T
       \<and> T < (unat (bit_loop too_big (2 ^ k) x) + 1) * (unat (bit_loop too_big (2 ^ k) x) + 1)
       \<and> unat (bit_loop too_big (2 ^ k) x) < B"
  using low bound(1) lo hi
proof (induction k arbitrary: x)
  case 0
  have nov: "unat x + 2 ^ 0 < 2 ^ LENGTH('a)" using "0.prems"(2) bound(2) by simp
  have u1: "unat (x OR 2 ^ 0) = unat x + 2 ^ 0"
    using "0.prems"(1) nov by (rule unat_set_bit)
  have "\<not> bit x 0" using "0.prems"(1) by simp
  then have undo: "(x OR 2 ^ 0) XOR 2 ^ 0 = x" by (rule set_then_clear_bit)
  have tb: "too_big (x OR 2 ^ 0) \<longleftrightarrow> T < (unat x + 1) * (unat x + 1)"
    using test [of "x OR 2 ^ 0"] u1 "0.prems"(2) by simp
  show ?case
  proof (cases "too_big (x OR 2 ^ 0)")
    case True
    then have "bit_loop too_big (2 ^ 0) x = x"
      using undo bit_loop_step [of 0 too_big x] by simp
    then show ?thesis using True tb "0.prems" by simp
  next
    case False
    then have "bit_loop too_big (2 ^ 0) x = x OR 2 ^ 0"
      using bit_loop_step [of 0 too_big x] by simp
    then show ?thesis using False tb u1 "0.prems" by simp
  qed
next
  case (Suc k)
  have kl: "Suc k < LENGTH('a)"
  proof -
    have "(2::nat) ^ Suc (Suc k) \<le> 2 ^ LENGTH('a)" using Suc.prems(2) bound(2) by linarith
    then have "Suc (Suc k) \<le> LENGTH('a)" by (simp only: power_increasing_iff [of 2] one_less_numeral_iff semiring_norm)
    then show ?thesis by simp
  qed
  have half: "(2::nat) ^ Suc k < 2 ^ Suc (Suc k)" by simp
  have nov: "unat x + 2 ^ Suc k < 2 ^ LENGTH('a)" using Suc.prems(2) bound(2) half by linarith
  have u1: "unat (x OR 2 ^ Suc k) = unat x + 2 ^ Suc k"
    using Suc.prems(1) nov by (rule unat_set_bit)
  have "\<not> bit x (Suc k)" using Suc.prems(1) by simp
  then have undo: "(x OR 2 ^ Suc k) XOR 2 ^ Suc k = x" by (rule set_then_clear_bit)
  have lt: "unat (x OR 2 ^ Suc k) < B" using u1 Suc.prems(2) half by linarith
  have tb: "too_big (x OR 2 ^ Suc k) \<longleftrightarrow> T < (unat x + 2 ^ Suc k) * (unat x + 2 ^ Suc k)"
    using test [OF lt] by (simp only: u1)
  show ?case
  proof (cases "too_big (x OR 2 ^ Suc k)")
    case True
    then have eq: "bit_loop too_big (2 ^ Suc k) x = bit_loop too_big (2 ^ k) x"
      using undo bit_loop_step [OF kl, of too_big x] by simp
    have "\<forall>i\<le>k. \<not> bit x i" using Suc.prems(1) by simp
    moreover have "unat x + 2 ^ Suc k \<le> B" using Suc.prems(2) half by linarith
    moreover note Suc.prems(3)
    moreover have "T < (unat x + 2 ^ Suc k) * (unat x + 2 ^ Suc k)" using True tb by simp
    ultimately show ?thesis unfolding eq by (rule Suc.IH)
  next
    case False
    let ?y = "x OR 2 ^ Suc k"
    from False have eq: "bit_loop too_big (2 ^ Suc k) x = bit_loop too_big (2 ^ k) ?y"
      using bit_loop_step [OF kl, of too_big x] by simp
    have "\<forall>i\<le>k. \<not> bit ?y i" using Suc.prems(1) by (rule set_bit_keeps_low_bits)
    moreover have "unat ?y + 2 ^ Suc k \<le> B" using Suc.prems(2) unfolding u1 by simp
    moreover have "unat ?y * unat ?y \<le> T" using False tb by (simp only: u1 not_less)
    moreover have "T < (unat ?y + 2 ^ Suc k) * (unat ?y + 2 ^ Suc k)"
      using Suc.prems(4) unfolding u1 by (simp add: add.assoc)
    ultimately show ?thesis unfolding eq by (rule Suc.IH)
  qed
qed

text \<open>Conversions between the widths, and shifts, read as natural numbers.\<close>

lemma unat_ucast_small:
  fixes w :: "'a::len word"
  assumes "unat w < 2 ^ LENGTH('b::len)"
  shows "unat (ucast w :: 'b word) = unat w"
proof -
  have "unat (ucast w :: 'b word) = take_bit LENGTH('b) (unat w)"
    by (rule unsigned_ucast_eq)
  then show ?thesis using assms by (simp add: take_bit_nat_eq_self)
qed

lemma unat_push_bit_small:
  fixes w :: "'a::len word"
  assumes "unat w * 2 ^ n < 2 ^ LENGTH('a)"
  shows "unat (push_bit n w) = unat w * 2 ^ n"
proof -
  have "unat (push_bit n w) = take_bit LENGTH('a) (push_bit n (unat w))"
    by (rule unsigned_push_bit_eq)
  then show ?thesis using assms by (simp add: take_bit_nat_eq_self push_bit_eq_mult)
qed

lemma push_bit_low_bits:
  fixes w :: "'a::len word"
  shows "\<forall>i\<le>k. \<not> bit (push_bit (Suc k) w) i"
  unfolding bit_push_bit_iff by simp

lemma unat_drop_bit_div:
  fixes w :: "'a::len word"
  shows "unat (drop_bit n w) = unat w div 2 ^ n"
proof -
  have "unat (drop_bit n w) = drop_bit n (unat w)" by (rule unat_drop_bit_eq)
  then show ?thesis by (simp add: drop_bit_eq_div)
qed

lemma unat_u8: "unat (w::u8) < 256"
  using unsigned_less [of w] by simp

lemma unat_u16: "unat (w::u16) < 65536"
  using unsigned_less [of w] by simp

lemma unat_u32: "unat (w::u32) < 4294967296"
  using unsigned_less [of w] by simp

lemma unat_high_word: "unat (ucast (drop_bit 16 (a::u32)) :: u16) = unat a div 65536"
proof -
  have "unat (drop_bit 16 a) = unat a div 2 ^ 16" by (rule unat_drop_bit_div)
  moreover have "unat a div 2 ^ 16 < 2 ^ 16" using unat_u32 [of a] by simp
  ultimately have "unat (ucast (drop_bit 16 a) :: u16) = unat (drop_bit 16 a)"
    by (intro unat_ucast_small) simp
  then show ?thesis by (simp add: unat_drop_bit_div)
qed

lemma unat_high_byte: "unat (ucast (drop_bit 8 (b::u16)) :: u8) = unat b div 256"
proof -
  have "unat (drop_bit 8 b) = unat b div 2 ^ 8" by (rule unat_drop_bit_div)
  moreover have "unat b div 2 ^ 8 < 2 ^ 8" using unat_u16 [of b] by simp
  ultimately have "unat (ucast (drop_bit 8 b) :: u8) = unat (drop_bit 8 b)"
    by (intro unat_ucast_small) simp
  then show ?thesis by (simp add: unat_drop_bit_div)
qed

text \<open>From one stage to the next: a root of the upper part, shifted, brackets the whole.\<close>

lemma square_scale:
  fixes z b s :: nat
  assumes "0 < s" "z * z \<le> b div (s * s)" "b div (s * s) < (z + 1) * (z + 1)"
  shows "(z * s) * (z * s) \<le> b" and "b < (z * s + s) * (z * s + s)"
proof -
  have "(z * s) * (z * s) = (z * z) * (s * s)" by (simp add: algebra_simps)
  also have "\<dots> \<le> (b div (s * s)) * (s * s)" using assms(2) by (rule mult_le_mono1)
  also have "\<dots> \<le> b" by (rule div_times_less_eq_dividend)
  finally show "(z * s) * (z * s) \<le> b" .
  have "0 < s * s" using assms(1) by simp
  then have "b < (b div (s * s) + 1) * (s * s)"
    using dividend_less_div_times [of "s * s" b] by (simp add: algebra_simps)
  also have "\<dots> \<le> ((z + 1) * (z + 1)) * (s * s)"
    using assms(3) by (intro mult_le_mono1) simp
  also have "\<dots> = (z * s + s) * (z * s + s)" by (simp add: algebra_simps)
  finally show "b < (z * s + s) * (z * s + s)" .
qed

section \<open>\<open>int_sqrt\<close>\<close>

lemma int_sqrt_bounds:
  "unat (int_sqrt a) * unat (int_sqrt a) \<le> unat a
     \<and> unat a < (unat (int_sqrt a) + 1) * (unat (int_sqrt a) + 1)"
proof -
  define b :: u16 where "b = ucast (drop_bit 16 a)"
  define c :: u8 where "c = ucast (drop_bit 8 b)"
  define z where "z = bit_loop (\<lambda>z. c < z * z) (2 ^ 3) 0"
  define x0 :: u16 where "x0 = push_bit 4 (ucast z)"
  define x1 where "x1 = bit_loop (\<lambda>x. b < x * x) (2 ^ 3) x0"
  define x2 where "x2 = push_bit 8 x1"
  define x3 where "x3 = bit_loop (\<lambda>x. a < ucast x * ucast x) (2 ^ 7) x2"
  have res: "int_sqrt a = x3"
    by (simp add: int_sqrt_def Let_def b_def c_def z_def x0_def x1_def x2_def x3_def)
  have ub: "unat b = unat a div 65536" unfolding b_def by (rule unat_high_word)
  have uc: "unat c = unat b div 256" unfolding c_def by (rule unat_high_byte)
  \<comment> \<open>first stage: four bits against the top byte\<close>
  have t1: "(c < y * y) \<longleftrightarrow> unat c < unat y * unat y" if "unat y < 16" for y :: u8
  proof -
    have "unat y * unat y < 16 * 16" using that by (intro mult_strict_mono) simp_all
    then have "unat (y * y) = unat y * unat y"
      using unat_mult_lem [of y y] by simp
    then show ?thesis by (simp add: word_less_nat_alt)
  qed
  have s1: "unat z * unat z \<le> unat c \<and> unat c < (unat z + 1) * (unat z + 1) \<and> unat z < 16"
    unfolding z_def
  proof (rule bit_loop_floor_sqrt [where B = 16])
    show "\<forall>i\<le>3. \<not> bit (0::u8) i" by simp
    show "unat (0::u8) + 2 ^ Suc 3 \<le> 16" by simp
    show "(16::nat) \<le> 2 ^ LENGTH(8)" by simp
    show "(c < y * y) = (unat c < unat y * unat y)" if "unat y < 16" for y :: u8
      using that by (rule t1)
    show "unat (0::u8) * unat (0::u8) \<le> unat c" by simp
    show "unat c < (unat (0::u8) + 2 ^ Suc 3) * (unat (0::u8) + 2 ^ Suc 3)"
      using unat_u8 [of c] by simp
  qed
  \<comment> \<open>second stage: four more bits against the high word\<close>
  have ux0: "unat x0 = unat z * 16"
  proof -
    have "unat (ucast z :: u16) = unat z" using unat_u8 [of z] by (intro unat_ucast_small) simp
    moreover have "unat (ucast z :: u16) * 2 ^ 4 < 2 ^ LENGTH(16)"
      using s1 calculation by simp
    ultimately show ?thesis unfolding x0_def using unat_push_bit_small [of "ucast z :: u16" 4] by simp
  qed
  have t2: "(b < y * y) \<longleftrightarrow> unat b < unat y * unat y" if "unat y < 256" for y :: u16
  proof -
    have "unat y * unat y < 256 * 256" using that by (intro mult_strict_mono) simp_all
    then have "unat (y * y) = unat y * unat y"
      using unat_mult_lem [of y y] by simp
    then show ?thesis by (simp add: word_less_nat_alt)
  qed
  have sc1: "(unat z * 16) * (unat z * 16) \<le> unat b"
    "unat b < (unat z * 16 + 16) * (unat z * 16 + 16)"
    using square_scale [of 16 "unat z" "unat b"] s1 uc by simp_all
  have s2: "unat x1 * unat x1 \<le> unat b \<and> unat b < (unat x1 + 1) * (unat x1 + 1) \<and> unat x1 < 256"
    unfolding x1_def
  proof (rule bit_loop_floor_sqrt [where B = 256])
    show "\<forall>i\<le>3. \<not> bit x0 i"
      using push_bit_low_bits [of 3 "ucast z :: u16"] unfolding x0_def by simp
    show "unat x0 + 2 ^ Suc 3 \<le> 256" using s1 ux0 by simp
    show "(256::nat) \<le> 2 ^ LENGTH(16)" by simp
    show "(b < y * y) = (unat b < unat y * unat y)" if "unat y < 256" for y :: u16
      using that by (rule t2)
    show "unat x0 * unat x0 \<le> unat b" using sc1(1) ux0 by simp
    show "unat b < (unat x0 + 2 ^ Suc 3) * (unat x0 + 2 ^ Suc 3)" using sc1(2) ux0 by simp
  qed
  \<comment> \<open>third stage: eight more bits against the whole input\<close>
  have ux2: "unat x2 = unat x1 * 256"
    unfolding x2_def using unat_push_bit_small [of x1 8] s2 by simp
  have t3: "(a < ucast y * ucast y) \<longleftrightarrow> unat a < unat y * unat y" for y :: u16
  proof -
    have uy: "unat (ucast y :: u32) = unat y" using unat_u16 [of y] by (intro unat_ucast_small) simp
    have "unat y * unat y < 65536 * 65536" using unat_u16 [of y] by (intro mult_strict_mono) simp_all
    then have "unat (ucast y * ucast y :: u32) = unat y * unat y"
      using unat_mult_lem [of "ucast y :: u32" "ucast y"] uy by simp
    then show ?thesis by (simp add: word_less_nat_alt)
  qed
  have sc2: "(unat x1 * 256) * (unat x1 * 256) \<le> unat a"
    "unat a < (unat x1 * 256 + 256) * (unat x1 * 256 + 256)"
    using square_scale [of 256 "unat x1" "unat a"] s2 ub by simp_all
  have s3: "unat x3 * unat x3 \<le> unat a \<and> unat a < (unat x3 + 1) * (unat x3 + 1) \<and> unat x3 < 65536"
    unfolding x3_def
  proof (rule bit_loop_floor_sqrt [where B = 65536])
    show "\<forall>i\<le>7. \<not> bit x2 i"
      using push_bit_low_bits [of 7 x1] unfolding x2_def by simp
    show "unat x2 + 2 ^ Suc 7 \<le> 65536" using s2 ux2 by simp
    show "(65536::nat) \<le> 2 ^ LENGTH(16)" by simp
    show "(a < ucast y * ucast y) = (unat a < unat y * unat y)" if "unat y < 65536" for y :: u16
      by (rule t3)
    show "unat x2 * unat x2 \<le> unat a" using sc2(1) ux2 by simp
    show "unat a < (unat x2 + 2 ^ Suc 7) * (unat x2 + 2 ^ Suc 7)" using sc2(2) ux2 by simp
  qed
  show ?thesis using s3 by (simp add: res)
qed

text \<open>The loop with its two assignments folded into one expression, for evaluation.\<close>

lemma bit_loop_unfold:
  "bit_loop too_big j x =
     (if j = 0 then x
      else bit_loop too_big (drop_bit 1 j) (if too_big (x OR j) then (x OR j) XOR j else x OR j))"
  by (subst bit_loop.simps) (simp add: Let_def)

lemma int_sqrt_0: "int_sqrt 0 = 0"
  unfolding int_sqrt_def Let_def by (simp add: bit_loop_unfold)

lemma int_sqrt_1: "int_sqrt 1 = 1"
  unfolding int_sqrt_def Let_def by (simp add: bit_loop_unfold)

lemma int_sqrt_99: "int_sqrt 99 = 9"
  unfolding int_sqrt_def Let_def by (simp add: bit_loop_unfold)

lemma int_sqrt_4294836225: "int_sqrt 4294836225 = 65535"
  unfolding int_sqrt_def Let_def by (simp add: bit_loop_unfold)

text \<open>
  C2: for every unsigned 32-bit \<open>a\<close>, the result \<open>x = int_sqrt a\<close> satisfies
  \<open>x * x \<le> a\<close> and \<open>(x + 1) * (x + 1) > a\<close>, the squares taken in unbounded
  arithmetic; in particular \<open>int_sqrt 0 = 0\<close>, \<open>int_sqrt 1 = 1\<close>, \<open>int_sqrt 99 = 9\<close> and
  \<open>int_sqrt 4294836225 = 65535\<close>.
\<close>

theorem int_sqrt_floor_sqrt:
  "unat (int_sqrt a) * unat (int_sqrt a) \<le> unat a
   \<and> unat a < (unat (int_sqrt a) + 1) * (unat (int_sqrt a) + 1)
   \<and> int_sqrt 0 = 0 \<and> int_sqrt 1 = 1 \<and> int_sqrt 99 = 9 \<and> int_sqrt 4294836225 = 65535"
  using int_sqrt_bounds [of a] int_sqrt_0 int_sqrt_1 int_sqrt_99 int_sqrt_4294836225
  by (simp only: simp_thms)

section \<open>\<open>int_inv_sqrt\<close>\<close>

lemma int_inv_sqrt_bounds:
  assumes "a \<noteq> 0"
  shows "\<exists>x. int_inv_sqrt a = Some x
           \<and> unat x * unat x \<le> (65535 div unat a) * 256
           \<and> (65535 div unat a) * 256 < (unat x + 1) * (unat x + 1)"
proof -
  define r :: u16 where "r = 0xFFFF div a"
  define q :: u32 where "q = push_bit 8 (ucast r)"
  define z where "z = bit_loop (\<lambda>z::u8. drop_bit 8 q < ucast ((ucast z :: u16) * ucast z)) (2 ^ 7) 0"
  define x0 :: u16 where "x0 = push_bit 4 (ucast z)"
  define x1 where "x1 = bit_loop (\<lambda>x. q < ucast x * ucast x) (2 ^ 3) x0"
  have res: "int_inv_sqrt a = Some x1"
    using assms by (simp add: int_inv_sqrt_def Let_def r_def q_def z_def x0_def x1_def)
  have ur: "unat r = 65535 div unat a" unfolding r_def by (simp add: unat_div)
  have ur32: "unat (ucast r :: u32) = unat r" using unat_u16 [of r] by (intro unat_ucast_small) simp
  have uq: "unat q = unat r * 256"
    unfolding q_def using unat_push_bit_small [of "ucast r :: u32" 8] ur32 unat_u16 [of r] by simp
  have uq8: "unat (drop_bit 8 q) = unat r" by (simp add: unat_drop_bit_div uq)
  \<comment> \<open>first stage: eight bits against the reciprocal\<close>
  have t1: "(drop_bit 8 q < ucast ((ucast y :: u16) * ucast y)) \<longleftrightarrow> unat r < unat y * unat y"
    for y :: u8
  proof -
    have uy: "unat (ucast y :: u16) = unat y" using unat_u8 [of y] by (intro unat_ucast_small) simp
    have "unat y * unat y < 256 * 256" using unat_u8 [of y] by (intro mult_strict_mono) simp_all
    then have sq: "unat ((ucast y :: u16) * ucast y) = unat y * unat y"
      using unat_mult_lem [of "ucast y :: u16" "ucast y"] uy by simp
    have "unat (ucast ((ucast y :: u16) * ucast y) :: u32) = unat ((ucast y :: u16) * ucast y)"
      using unat_u16 [of "(ucast y :: u16) * ucast y"] by (intro unat_ucast_small) simp
    then show ?thesis by (simp add: word_less_nat_alt uq8 sq)
  qed
  have s1: "unat z * unat z \<le> unat r \<and> unat r < (unat z + 1) * (unat z + 1) \<and> unat z < 256"
    unfolding z_def
  proof (rule bit_loop_floor_sqrt [where B = 256])
    show "\<forall>i\<le>7. \<not> bit (0::u8) i" by simp
    show "unat (0::u8) + 2 ^ Suc 7 \<le> 256" by simp
    show "(256::nat) \<le> 2 ^ LENGTH(8)" by simp
    show "(drop_bit 8 q < ucast ((ucast y :: u16) * ucast y)) = (unat r < unat y * unat y)"
      if "unat y < 256" for y :: u8
      by (rule t1)
    show "unat (0::u8) * unat (0::u8) \<le> unat r" by simp
    show "unat r < (unat (0::u8) + 2 ^ Suc 7) * (unat (0::u8) + 2 ^ Suc 7)"
      using unat_u16 [of r] by simp
  qed
  \<comment> \<open>second stage: four more bits against q\<close>
  have ux0: "unat x0 = unat z * 16"
  proof -
    have "unat (ucast z :: u16) = unat z" using unat_u8 [of z] by (intro unat_ucast_small) simp
    moreover have "unat (ucast z :: u16) * 2 ^ 4 < 2 ^ LENGTH(16)"
      using s1 calculation by simp
    ultimately show ?thesis unfolding x0_def using unat_push_bit_small [of "ucast z :: u16" 4] by simp
  qed
  have t2: "(q < ucast y * ucast y) \<longleftrightarrow> unat q < unat y * unat y" for y :: u16
  proof -
    have uy: "unat (ucast y :: u32) = unat y" using unat_u16 [of y] by (intro unat_ucast_small) simp
    have "unat y * unat y < 65536 * 65536" using unat_u16 [of y] by (intro mult_strict_mono) simp_all
    then have "unat (ucast y * ucast y :: u32) = unat y * unat y"
      using unat_mult_lem [of "ucast y :: u32" "ucast y"] uy by simp
    then show ?thesis by (simp add: word_less_nat_alt)
  qed
  have sc: "(unat z * 16) * (unat z * 16) \<le> unat q"
    "unat q < (unat z * 16 + 16) * (unat z * 16 + 16)"
    using square_scale [of 16 "unat z" "unat q"] s1 uq by simp_all
  have s2: "unat x1 * unat x1 \<le> unat q \<and> unat q < (unat x1 + 1) * (unat x1 + 1) \<and> unat x1 < 4096"
    unfolding x1_def
  proof (rule bit_loop_floor_sqrt [where B = 4096])
    show "\<forall>i\<le>3. \<not> bit x0 i"
      using push_bit_low_bits [of 3 "ucast z :: u16"] unfolding x0_def by simp
    show "unat x0 + 2 ^ Suc 3 \<le> 4096" using s1 ux0 by simp
    show "(4096::nat) \<le> 2 ^ LENGTH(16)" by simp
    show "(q < ucast y * ucast y) = (unat q < unat y * unat y)" if "unat y < 4096" for y :: u16
      by (rule t2)
    show "unat x0 * unat x0 \<le> unat q" using sc(1) ux0 by simp
    show "unat q < (unat x0 + 2 ^ Suc 3) * (unat x0 + 2 ^ Suc 3)" using sc(2) ux0 by simp
  qed
  show ?thesis using s2 res uq ur by simp
qed

lemma square_le_imp_le:
  fixes x y Q :: nat
  assumes "Q < (x + 1) * (x + 1)" "y * y \<le> Q"
  shows "y \<le> x"
proof (rule ccontr)
  assume "\<not> y \<le> x"
  then have "x + 1 \<le> y" by simp
  then have "(x + 1) * (x + 1) \<le> y * y" by (intro mult_le_mono)
  with assms show False by simp
qed

lemma int_inv_sqrt_40000: "int_inv_sqrt 40000 = Some 16"
  unfolding int_inv_sqrt_def Let_def by (simp add: bit_loop_unfold)

lemma int_inv_sqrt_1: "int_inv_sqrt 1 = Some 4095"
  unfolding int_inv_sqrt_def Let_def by (simp add: bit_loop_unfold)

text \<open>
  C4: for every unsigned 16-bit \<open>a > 0\<close>, with \<open>q = (0xFFFF / a) << 8\<close> in integer
  arithmetic, \<open>int_inv_sqrt a\<close> returns an \<open>x\<close> with \<open>x * x \<le> q < (x + 1) * (x + 1)\<close>,
  and \<open>x\<close> is the largest integer whose square is at most \<open>q\<close>.
\<close>

theorem int_inv_sqrt_maximal:
  assumes "a \<noteq> 0"
  shows "\<exists>x. int_inv_sqrt a = Some x
           \<and> unat x * unat x \<le> (65535 div unat a) * 2 ^ 8
           \<and> (65535 div unat a) * 2 ^ 8 < (unat x + 1) * (unat x + 1)
           \<and> (\<forall>y. y * y \<le> (65535 div unat a) * 2 ^ 8 \<longrightarrow> y \<le> unat x)"
proof -
  obtain x where x: "int_inv_sqrt a = Some x"
    "unat x * unat x \<le> (65535 div unat a) * 256"
    "(65535 div unat a) * 256 < (unat x + 1) * (unat x + 1)"
    using int_inv_sqrt_bounds [OF assms] by blast
  have "y \<le> unat x" if "y * y \<le> (65535 div unat a) * 256" for y
    using x(3) that by (rule square_le_imp_le)
  then show ?thesis using x by simp
qed

theorem int_inv_sqrt_maximal_witness:
  "(40000::u16) \<noteq> 0 \<and> int_inv_sqrt 40000 = Some 16
   \<and> unat (16::u16) * unat (16::u16) \<le> (65535 div unat (40000::u16)) * 2 ^ 8
   \<and> (65535 div unat (40000::u16)) * 2 ^ 8 < (unat (16::u16) + 1) * (unat (16::u16) + 1)
   \<and> (16::nat) * 16 \<le> (65535 div unat (40000::u16)) * 2 ^ 8 \<and> (16::nat) \<le> unat (16::u16)"
  using int_inv_sqrt_maximal [of 40000] by (simp add: int_inv_sqrt_40000)

lemma sqrt_40000: "sqrt 40000 = 200"
  by (rule real_sqrt_unique) simp_all

text \<open>
  C3 says that for every \<open>a > 0\<close> the result \<open>x\<close> of \<open>int_inv_sqrt\<close> lies in the range
  \<open>4096 / sqrt a - 1 < x \<le> 4096 / sqrt a\<close>, which is also what the comment above the
  function promises. At \<open>a = 40000\<close> the reciprocal \<open>0xFFFF / a\<close> is cut to \<open>1\<close>, the
  function returns \<open>16\<close>, and \<open>4096 / sqrt 40000 - 1 = 19.48\<close> is not below \<open>16\<close>.
\<close>

theorem int_inv_sqrt_40000_below_range:
  "int_inv_sqrt 40000 = Some 16 \<and> \<not> (4096 / sqrt 40000 - 1 < real (unat (16::u16)))"
  by (simp add: int_inv_sqrt_40000 sqrt_40000)

text \<open>The lower bound fails at \<open>a = 1\<close> too, through the constant \<open>0xFFFF\<close> in the place
  of \<open>0x10000\<close>: the result is \<open>4095\<close>, and \<open>4096 / sqrt 1 - 1 = 4095\<close> is not below it.\<close>

lemma int_inv_sqrt_1_below_range:
  "int_inv_sqrt 1 = Some 4095 \<and> \<not> (4096 / sqrt 1 - 1 < real (unat (4095::u16)))"
  by (simp add: int_inv_sqrt_1)

end
